theory Spec2Isabelle
  imports Complex_Main "HOL-Library.Sublist"
begin

section \<open>Text: Python strings as lists of code points\<close>

text \<open>
  A Python \<^verbatim>\<open>str\<close> is a sequence of Unicode code points and \<^verbatim>\<open>len\<close> counts
  code points, so a text is a list of natural numbers. \<open>codepoints\<close> reads an ASCII
  literal.
\<close>

type_synonym pystr = "nat list"

definition codepoints :: "string \<Rightarrow> pystr" where
  "codepoints s = map of_char s"

text \<open>
  \<^verbatim>\<open>str.isspace\<close> for one character, which is what \<^verbatim>\<open>str.strip()\<close> without an
  argument removes: TAB..CR, FS..US and SPACE below 128, then NEL, NBSP, OGHAM SPACE,
  EN QUAD..HAIR SPACE, LINE and PARAGRAPH SEPARATOR, NARROW NBSP, MEDIUM MATHEMATICAL
  SPACE and IDEOGRAPHIC SPACE.
\<close>

definition isspace :: "nat \<Rightarrow> bool" where
  "isspace c \<longleftrightarrow>
     (9 \<le> c \<and> c \<le> 13) \<or> (28 \<le> c \<and> c \<le> 32) \<or> c = 133 \<or> c = 160 \<or> c = 5760 \<or>
     (8192 \<le> c \<and> c \<le> 8202) \<or> c = 8232 \<or> c = 8233 \<or> c = 8239 \<or> c = 8287 \<or> c = 12288"

definition lstrip :: "pystr \<Rightarrow> pystr" where
  "lstrip s = dropWhile isspace s"

definition rstrip :: "pystr \<Rightarrow> pystr" where
  "rstrip s = rev (dropWhile isspace (rev s))"

definition strip :: "pystr \<Rightarrow> pystr" where
  "strip s = rstrip (lstrip s)"

section \<open>Generation presets (voice_clone.py, lines 86-107 and 348-360)\<close>

record gen_params =
  temperature :: real
  repetition_penalty :: real
  speed :: real

datatype preset = Stable | Neutral | Expressive | Extreme

text \<open>The dictionary \<^verbatim>\<open>GENERATION_PRESETS\<close>; argparse admits only its four keys.\<close>

fun GENERATION_PRESETS :: "preset \<Rightarrow> gen_params" where
  "GENERATION_PRESETS Stable =
     \<lparr>temperature = 0.1, repetition_penalty = 20.0, speed = 1.0\<rparr>"
| "GENERATION_PRESETS Neutral =
     \<lparr>temperature = 0.75, repetition_penalty = 10.0, speed = 1.0\<rparr>"
| "GENERATION_PRESETS Expressive =
     \<lparr>temperature = 0.85, repetition_penalty = 5.0, speed = 1.0\<rparr>"
| "GENERATION_PRESETS Extreme =
     \<lparr>temperature = 0.95, repetition_penalty = 2.0, speed = 1.0\<rparr>"

text \<open>
  Lines 348-360 of \<^verbatim>\<open>main\<close>: the neutral copy, replaced by the named preset when
  \<^verbatim>\<open>args.preset\<close> is set, then one assignment per override that is not \<^verbatim>\<open>None\<close>.
\<close>

definition resolve_gen_params ::
  "preset option \<Rightarrow> real option \<Rightarrow> real option \<Rightarrow> real option \<Rightarrow> gen_params" where
  "resolve_gen_params a_preset a_temperature a_repetition_penalty a_speed =
     (let g0 = GENERATION_PRESETS Neutral;
          g1 = (case a_preset of None \<Rightarrow> g0 | Some p \<Rightarrow> GENERATION_PRESETS p);
          g2 = (case a_temperature of None \<Rightarrow> g1 | Some t \<Rightarrow> g1\<lparr>temperature := t\<rparr>);
          g3 = (case a_repetition_penalty of None \<Rightarrow> g2
                | Some r \<Rightarrow> g2\<lparr>repetition_penalty := r\<rparr>);
          g4 = (case a_speed of None \<Rightarrow> g3 | Some v \<Rightarrow> g3\<lparr>speed := v\<rparr>)
      in g4)"

section \<open>The segmenter (process_long_text, lines 176-185)\<close>

text \<open>\<^verbatim>\<open>char in '.!?'\<close>: full stop 46, exclamation mark 33, question mark 63.\<close>

definition is_terminator :: "nat \<Rightarrow> bool" where
  "is_terminator c \<longleftrightarrow> c = 46 \<or> c = 33 \<or> c = 63"

text \<open>
  The \<^verbatim>\<open>for char in text\<close> loop with its two variables \<^verbatim>\<open>current_chunk\<close> and
  \<^verbatim>\<open>sentences\<close>; the result is the pair left when the text is exhausted. The bound
  \<open>20\<close> is the literal of line 181.
\<close>

fun split_loop :: "pystr \<Rightarrow> pystr \<Rightarrow> pystr list \<Rightarrow> pystr \<times> pystr list" where
  "split_loop [] current_chunk sentences = (current_chunk, sentences)"
| "split_loop (char # rest) current_chunk sentences =
     (let current_chunk = current_chunk @ [char] in
      if is_terminator char \<and> length current_chunk \<ge> 20
      then split_loop rest [] (sentences @ [strip current_chunk])
      else split_loop rest current_chunk sentences)"

text \<open>Lines 176-185: the loop from empty variables, then the trailing remainder.\<close>

definition split_sentences :: "pystr \<Rightarrow> pystr list" where
  "split_sentences text =
     (case split_loop text [] [] of
        (current_chunk, sentences) \<Rightarrow>
          if strip current_chunk \<noteq> [] then sentences @ [strip current_chunk]
          else sentences)"

text \<open>
  The test of line 181 at the moment the buffer holds the first \<open>n\<close> characters of
  \<open>b\<close>: the character just appended is a terminator and the buffer has 20 or more.
\<close>

definition closes_at :: "pystr \<Rightarrow> nat \<Rightarrow> bool" where
  "closes_at b n \<longleftrightarrow> 0 < n \<and> n \<le> length b \<and> is_terminator (b ! (n - 1)) \<and> 20 \<le> n"

text \<open>The default of the parameter \<^verbatim>\<open>max_chunk_length\<close> of \<^verbatim>\<open>process_long_text\<close>.\<close>

definition max_chunk_length_default :: nat where
  "max_chunk_length_default = 250"

section \<open>Paths, files and the external collaborators\<close>

text \<open>
  A path is modelled in the absolute, normalised form \<^verbatim>\<open>os.path.abspath\<close> returns: the
  list of its components below the root. File names are byte strings. The file system
  maps a path to what is stored there. \<^verbatim>\<open>os.makedirs\<close> and \<^verbatim>\<open>os.remove\<close> are taken to
  succeed; \<^verbatim>\<open>open\<close> fails where the file system says so (\<open>can_open_w\<close> below, and
  the reading of the text file in \<open>main_text\<close>). Output on the terminal is not modelled.
\<close>

type_synonym path = "string list"

datatype node = Dir | File string

type_synonym fs = "path \<rightharpoonup> node"

definition dirname :: "path \<Rightarrow> path" where
  "dirname p = butlast p"


definition join :: "path \<Rightarrow> string \<Rightarrow> path" where
  "join d name = d @ [name]"

definition path_exists :: "fs \<Rightarrow> path \<Rightarrow> bool" where
  "path_exists f p \<longleftrightarrow> f p \<noteq> None"

text \<open>\<^verbatim>\<open>os.makedirs\<close>: the leaf and every missing directory above it.\<close>

definition makedirs :: "fs \<Rightarrow> path \<Rightarrow> fs" where
  "makedirs f p = (\<lambda>q. if q \<noteq> [] \<and> prefix q p \<and> f q = None then Some Dir else f q)"

text \<open>
  \<^verbatim>\<open>open(path, 'w')\<close> succeeds when the directory of the path is a directory (the root
  is one) and the path itself is not a directory; otherwise it raises an \<^verbatim>\<open>OSError\<close>
  (\<^verbatim>\<open>FileNotFoundError\<close>, \<^verbatim>\<open>NotADirectoryError\<close>, \<^verbatim>\<open>IsADirectoryError\<close>).
\<close>

definition can_open_w :: "fs \<Rightarrow> path \<Rightarrow> bool" where
  "can_open_w f p \<longleftrightarrow> (dirname p = [] \<or> f (dirname p) = Some Dir) \<and> f p \<noteq> Some Dir"

text \<open>
  One call of \<^verbatim>\<open>tts.tts_to_file\<close>. The engine is external: by its interface it either
  writes audio to \<^verbatim>\<open>file_path\<close> or raises. What it does may depend on everything it
  was asked before, so it is a function of the calls made so far and of the request.
  The world keeps the log of calls beside the files.
\<close>

record request =
  req_text :: pystr
  req_speaker_wav :: path
  req_language :: string
  req_file_path :: path
  req_kwargs :: gen_params

datatype outcome = Wrote string | Raised

type_synonym engine = "request list \<Rightarrow> request \<Rightarrow> outcome"

text \<open>
  The join tool, \<^verbatim>\<open>subprocess.run(['ffmpeg', '-f', 'concat', ..., '-i', list_file_path,
  ..., output_path], check=True)\<close>: given the files, the manifest's path and the
  destination, it writes the destination and exits 0, or the call raises: the tool is
  missing, or it exits non-zero, and then it has left nothing new at the destination
  (\<open>None\<close>) or some file (\<open>Some\<close>).
\<close>

datatype join_outcome = Joined string | JoinFailed "string option"

type_synonym join_tool = "fs \<Rightarrow> path \<Rightarrow> path \<Rightarrow> join_outcome"

record world =
  files :: fs
  calls :: "request list"

datatype error = SynthesisError | OSError

definition tts_to_file :: "engine \<Rightarrow> request \<Rightarrow> world \<Rightarrow> world \<times> (error + unit)" where
  "tts_to_file tts rq w =
     (case tts (calls w) rq of
        Wrote audio \<Rightarrow>
          (\<lparr>files = (files w)(req_file_path rq \<mapsto> File audio), calls = calls w @ [rq]\<rparr>,
           Inr ())
      | Raised \<Rightarrow> (\<lparr>files = files w, calls = calls w @ [rq]\<rparr>, Inl SynthesisError))"

section \<open>clone_voice (lines 110-146)\<close>

definition clone_voice ::
  "engine \<Rightarrow> path \<Rightarrow> pystr \<Rightarrow> path \<Rightarrow> string \<Rightarrow> gen_params \<Rightarrow> world \<Rightarrow> world \<times> (error + path)" where
  "clone_voice tts reference_audio text output_path language kwargs w =
     (case tts_to_file tts
             \<lparr>req_text = text, req_speaker_wav = reference_audio, req_language = language,
              req_file_path = output_path, req_kwargs = kwargs\<rparr> w of
        (w', Inl e) \<Rightarrow> (w', Inl e)
      | (w', Inr _) \<Rightarrow> (w', Inr output_path))"

section \<open>process_long_text (lines 149-246)\<close>

text \<open>\<^verbatim>\<open>f"part_{i+1:04d}.wav"\<close>: the decimal digits, padded with zeros to four.\<close>

fun decimal :: "nat \<Rightarrow> string" where
  "decimal n =
     (if n < 10 then [''0123456789'' ! n]
      else decimal (n div 10) @ [''0123456789'' ! (n mod 10)])"

declare decimal.simps [simp del]

definition zfill :: "nat \<Rightarrow> string \<Rightarrow> string" where
  "zfill width s = replicate (width - length s) (CHR ''0'') @ s"

definition part_name :: "nat \<Rightarrow> string" where
  "part_name k = ''part_'' @ zfill 4 (decimal k) @ ''.wav''"

definition part_filename :: "path \<Rightarrow> nat \<Rightarrow> path" where
  "part_filename parts_dir i = join parts_dir (part_name (i + 1))"

definition parts_dir_of :: "path \<Rightarrow> path" where
  "parts_dir_of output_path = join (dirname output_path) ''voice_parts''"

text \<open>
  The loop of lines 195-220 over \<^verbatim>\<open>enumerate(sentences)\<close>, threading the world and
  \<^verbatim>\<open>temp_wav_files\<close>. Each \<^verbatim>\<open>continue\<close> is a recursive call on the rest: for a
  blank sentence, for a part that exists, and in the handler of a failed synthesis.
\<close>

fun synth_segments ::
  "engine \<Rightarrow> path \<Rightarrow> string \<Rightarrow> gen_params \<Rightarrow> path \<Rightarrow> (nat \<times> pystr) list \<Rightarrow>
   world \<times> path list \<Rightarrow> world \<times> path list" where
  "synth_segments tts reference_audio language kwargs parts_dir [] (w, temp_wav_files) =
     (w, temp_wav_files)"
| "synth_segments tts reference_audio language kwargs parts_dir ((i, sentence) # rest)
     (w, temp_wav_files) =
     (if strip sentence = []
      then synth_segments tts reference_audio language kwargs parts_dir rest
             (w, temp_wav_files)
      else
        let part = part_filename parts_dir i;
            temp_wav_files = temp_wav_files @ [part]
        in if path_exists (files w) part
           then synth_segments tts reference_audio language kwargs parts_dir rest
                  (w, temp_wav_files)
           else
             (case tts_to_file tts
                     \<lparr>req_text = sentence, req_speaker_wav = reference_audio,
                      req_language = language, req_file_path = part,
                      req_kwargs = kwargs\<rparr> w of
                (w', Inl e) \<Rightarrow>
                  synth_segments tts reference_audio language kwargs parts_dir rest
                    (w', temp_wav_files)
              | (w', Inr _) \<Rightarrow>
                  synth_segments tts reference_audio language kwargs parts_dir rest
                    (w', temp_wav_files)))"

text \<open>
  Lines 226-232: one line \<^verbatim>\<open>file '<path>'\<close> for each part that exists, backslashes
  turned into slashes.
\<close>

definition safe_path :: "path \<Rightarrow> string" where
  "safe_path p =
     map (\<lambda>c. if c = CHR 0x5C then CHR ''/'' else c) (concat (map (\<lambda>name. CHR ''/'' # name) p))"

definition manifest_line :: "path \<Rightarrow> string" where
  "manifest_line p = ''file '' @ [CHR 0x27] @ safe_path p @ [CHR 0x27, CHR 0x0A]"

definition input_list_text :: "fs \<Rightarrow> path list \<Rightarrow> string" where
  "input_list_text f temp_wav_files =
     concat (map manifest_line (filter (path_exists f) temp_wav_files))"

text \<open>
  Lines 222-244. The manifest is opened for writing outside every handler, so a failure
  there leaves the function as an exception. Then the join tool runs; its failure is
  caught by \<^verbatim>\<open>except Exception\<close>, which prints where the parts are and goes on: the code
  neither writes nor removes anything after the tool.
\<close>

definition concat_parts ::
  "join_tool \<Rightarrow> path \<Rightarrow> path list \<Rightarrow> path \<Rightarrow> world \<Rightarrow> world \<times> (error + unit)" where
  "concat_parts ffmpeg parts_dir temp_wav_files output_path w =
     (let list_file_path = join parts_dir ''input_list.txt'' in
      if \<not> can_open_w (files w) list_file_path then (w, Inl OSError)
      else
        let w1 = w\<lparr>files := (files w)(list_file_path \<mapsto>
                    File (input_list_text (files w) temp_wav_files))\<rparr>
        in case ffmpeg (files w1) list_file_path output_path of
             Joined audio \<Rightarrow> (w1\<lparr>files := (files w1)(output_path \<mapsto> File audio)\<rparr>, Inr ())
           | JoinFailed left \<Rightarrow>
               (case left of
                  None \<Rightarrow> (w1, Inr ())
                | Some partial \<Rightarrow>
                    (w1\<lparr>files := (files w1)(output_path \<mapsto> File partial)\<rparr>, Inr ())))"

text \<open>
  The whole function. The parameter \<^verbatim>\<open>max_chunk_length\<close> is received and never read.
  An error of the engine on the direct path (line 189) and a manifest that cannot be
  opened (line 227) leave the function as an exception; every other path returns
  \<^verbatim>\<open>output_path\<close>.
\<close>

definition process_long_text ::
  "engine \<Rightarrow> join_tool \<Rightarrow> path \<Rightarrow> pystr \<Rightarrow> path \<Rightarrow> string \<Rightarrow> nat \<Rightarrow> gen_params \<Rightarrow> world \<Rightarrow>
   world \<times> (error + path)" where
  "process_long_text tts ffmpeg reference_audio text output_path language max_chunk_length
     kwargs w =
     (let parts_dir = parts_dir_of output_path;
          w1 = (if \<not> path_exists (files w) parts_dir
                then w\<lparr>files := makedirs (files w) parts_dir\<rparr> else w);
          sentences = split_sentences text
      in if length sentences \<le> 1
         then clone_voice tts reference_audio text output_path language kwargs w1
         else
           (case synth_segments tts reference_audio language kwargs parts_dir
                   (enumerate 0 sentences) (w1, []) of
              (w2, temp_wav_files) \<Rightarrow>
                (case concat_parts ffmpeg parts_dir temp_wav_files output_path w2 of
                   (w3, Inl e) \<Rightarrow> (w3, Inl e)
                 | (w3, Inr _) \<Rightarrow> (w3, Inr output_path))))"

section \<open>The command line (lines 19-80 and 249-396)\<close>












text \<open>Lines 372-376: the cutoff on the length of the text.\<close>

definition main_generate ::
  "engine \<Rightarrow> join_tool \<Rightarrow> path \<Rightarrow> pystr \<Rightarrow> path \<Rightarrow> string \<Rightarrow> gen_params \<Rightarrow> world \<Rightarrow>
   world \<times> (error + path)" where
  "main_generate tts ffmpeg ref_wav text output language gen_params w =
     (if length text > 500
      then process_long_text tts ffmpeg ref_wav text output language max_chunk_length_default
             gen_params w
      else clone_voice tts ref_wav text output language gen_params w)"



section \<open>Example inputs\<close>

text \<open>
  A text of two segments, an engine that always writes and one that fails on its first
  call only, join tools that succeed or fail, and the empty world: the inputs at which
  the theorems are run.
\<close>

abbreviation two_sentences :: pystr where
  "two_sentences \<equiv> codepoints ''One sentence is here. Two''"

abbreviation always_writes :: engine where
  "always_writes \<equiv> \<lambda>h r. Wrote ''a''"

abbreviation join_ok :: join_tool where
  "join_ok \<equiv> \<lambda>f l p. Joined ''j''"



abbreviation empty_world :: world where
  "empty_world \<equiv> \<lparr>files = Map.empty, calls = []\<rparr>"



section \<open>Properties of the text functions\<close>

lemma terminator_not_space: "is_terminator c \<Longrightarrow> \<not> isspace c"
  by (auto simp: is_terminator_def isspace_def)

lemma filter_dropWhile_space:
  "filter (\<lambda>c. \<not> isspace c) (dropWhile isspace s) = filter (\<lambda>c. \<not> isspace c) s"
  by (induction s) auto

lemma filter_strip: "filter (\<lambda>c. \<not> isspace c) (strip s) = filter (\<lambda>c. \<not> isspace c) s"
proof -
  have "filter (\<lambda>c. \<not> isspace c) (rstrip u) = filter (\<lambda>c. \<not> isspace c) u" for u
    using filter_dropWhile_space [of "rev u"]
    by (simp add: rstrip_def rev_filter [symmetric] del: rev_filter)
  then show ?thesis
    by (simp add: strip_def lstrip_def filter_dropWhile_space)
qed

lemma strip_eq_Nil_iff: "strip s = [] \<longleftrightarrow> (\<forall>c\<in>set s. isspace c)"
proof
  assume "strip s = []"
  then have "filter (\<lambda>c. \<not> isspace c) s = []"
    using filter_strip [of s] by simp
  then show "\<forall>c\<in>set s. isspace c"
    by (simp add: filter_empty_conv)
next
  assume "\<forall>c\<in>set s. isspace c"
  then have "dropWhile isspace s = []" by simp
  then show "strip s = []"
    unfolding strip_def lstrip_def rstrip_def by (simp del: dropWhile_eq_Nil_conv)
qed

lemma strip_strip_Nil: "strip (strip s) = [] \<longleftrightarrow> strip s = []"
proof -
  have "strip (strip s) = [] \<longleftrightarrow> filter (\<lambda>c. \<not> isspace c) (strip s) = []"
    by (simp only: strip_eq_Nil_iff filter_empty_conv) simp
  also have "\<dots> \<longleftrightarrow> filter (\<lambda>c. \<not> isspace c) s = []"
    by (simp only: filter_strip)
  also have "\<dots> \<longleftrightarrow> strip s = []"
    by (simp only: strip_eq_Nil_iff filter_empty_conv) simp
  finally show ?thesis .
qed

lemma dropWhile_snoc_nonspace:
  "\<not> isspace c \<Longrightarrow> dropWhile isspace (b @ [c]) = dropWhile isspace b @ [c]"
  by (induction b) auto

lemma strip_snoc_nonspace: "\<not> isspace c \<Longrightarrow> strip (b @ [c]) = lstrip (b @ [c])"
  by (simp add: strip_def lstrip_def rstrip_def dropWhile_snoc_nonspace)

lemma strip_snoc_nonspace_Nil: "\<not> isspace c \<Longrightarrow> strip (b @ [c]) \<noteq> []"
  by (simp add: strip_eq_Nil_iff)

lemma closes_at_Nil: "\<not> closes_at [] n"
  by (auto simp: closes_at_def)

lemma split_loop_chunks:
  "split_loop t cur sents = (cur', sents') \<Longrightarrow>
   (sents' = sents \<and> cur' = cur @ t \<and> (\<forall>n. length cur < n \<longrightarrow> \<not> closes_at cur' n)) \<or>
   (\<exists>b bufs. sents' = sents @ map strip (b # bufs) \<and> cur @ t = concat (b # bufs) @ cur' \<and>
      length cur < length b \<and> closes_at b (length b) \<and>
      (\<forall>n. length cur < n \<and> n < length b \<longrightarrow> \<not> closes_at b n) \<and>
      (\<forall>x\<in>set bufs. closes_at x (length x) \<and> (\<forall>n<length x. \<not> closes_at x n)) \<and>
      (\<forall>n. \<not> closes_at cur' n))"
proof (induction t arbitrary: cur sents)
  case Nil
  then show ?case by (auto simp: closes_at_def)
next
  case (Cons c rest)
  let ?cur1 = "cur @ [c]"
  show ?case
  proof (cases "is_terminator c \<and> 20 \<le> length ?cur1")
    case True
    then have run: "split_loop rest [] (sents @ [strip ?cur1]) = (cur', sents')"
      using Cons.prems by simp
    have cl: "closes_at ?cur1 (length ?cur1)"
      using True by (simp add: closes_at_def)
    have fr: "\<forall>n. length cur < n \<and> n < length ?cur1 \<longrightarrow> \<not> closes_at ?cur1 n"
      by auto
    from Cons.IH [OF run] show ?thesis
    proof (elim disjE conjE exE)
      assume a: "sents' = (sents @ [strip ?cur1])" "cur' = [] @ rest"
        "\<forall>n. length ([]::pystr) < n \<longrightarrow> \<not> closes_at cur' n"
      have op: "\<forall>n. \<not> closes_at cur' n"
      proof
        fix n show "\<not> closes_at cur' n"
          using a(3) by (cases "n = 0") (auto simp: closes_at_def)
      qed
      show ?thesis
        by (intro disjI2 exI [of _ ?cur1] exI [of _ "[]"]) (use a(1,2) cl fr op in simp)
    next
      fix b bufs
      assume a: "sents' = (sents @ [strip ?cur1]) @ map strip (b # bufs)"
        "[] @ rest = concat (b # bufs) @ cur'"
        "closes_at b (length b)"
        "\<forall>n. length ([]::pystr) < n \<and> n < length b \<longrightarrow> \<not> closes_at b n"
        "\<forall>x\<in>set bufs. closes_at x (length x) \<and> (\<forall>n<length x. \<not> closes_at x n)"
        "\<forall>n. \<not> closes_at cur' n"
      have b: "\<forall>n<length b. \<not> closes_at b n"
      proof (intro allI impI)
        fix n assume "n < length b"
        then show "\<not> closes_at b n"
          using a(4) by (cases "n = 0") (auto simp: closes_at_def)
      qed
      show ?thesis
        by (intro disjI2 exI [of _ ?cur1] exI [of _ "b # bufs"])
          (use a(1,2,3,5,6) b cl fr in simp)
    qed
  next
    case False
    then have run: "split_loop rest ?cur1 sents = (cur', sents')"
      using Cons.prems by auto
    from Cons.IH [OF run] show ?thesis
    proof (elim disjE conjE exE)
      assume a: "sents' = sents" "cur' = ?cur1 @ rest"
        "\<forall>n. length ?cur1 < n \<longrightarrow> \<not> closes_at cur' n"
      have "\<forall>n. length cur < n \<longrightarrow> \<not> closes_at cur' n"
      proof (intro allI impI)
        fix n assume n: "length cur < n"
        show "\<not> closes_at cur' n"
        proof (cases "n = Suc (length cur)")
          case True
          then have "cur' ! (n - 1) = c" using a(2) by (simp add: nth_append)
          then show ?thesis using False True by (simp add: closes_at_def)
        next
          case False
          then show ?thesis using n a(3) by simp
        qed
      qed
      then show ?thesis using a by simp
    next
      fix b bufs
      assume a: "sents' = sents @ map strip (b # bufs)"
        "?cur1 @ rest = concat (b # bufs) @ cur'"
        "length ?cur1 < length b"
        "closes_at b (length b)"
        "\<forall>n. length ?cur1 < n \<and> n < length b \<longrightarrow> \<not> closes_at b n"
        "\<forall>x\<in>set bufs. closes_at x (length x) \<and> (\<forall>n<length x. \<not> closes_at x n)"
        "\<forall>n. \<not> closes_at cur' n"
      have bc: "b ! length cur = c"
      proof -
        have "(?cur1 @ rest) ! length cur = (concat (b # bufs) @ cur') ! length cur"
          using a(2) by simp
        then show ?thesis using a(3) by (simp add: nth_append)
      qed
      have fr: "\<forall>n. length cur < n \<and> n < length b \<longrightarrow> \<not> closes_at b n"
      proof (intro allI impI)
        fix n assume n: "length cur < n \<and> n < length b"
        show "\<not> closes_at b n"
        proof (cases "n = Suc (length cur)")
          case True
          then show ?thesis using False bc by (simp add: closes_at_def)
        next
          case False
          then show ?thesis using n a(5) by simp
        qed
      qed
      show ?thesis
        by (intro disjI2 exI [of _ b] exI [of _ bufs]) (use a fr in simp)
    qed
  qed
qed

lemma split_sentences_chunks:
  "\<exists>bufs rest. t = concat bufs @ rest \<and>
     (\<forall>b\<in>set bufs. closes_at b (length b) \<and> (\<forall>n<length b. \<not> closes_at b n)) \<and>
     (\<forall>n. \<not> closes_at rest n) \<and>
     split_sentences t = map strip bufs @ (if strip rest = [] then [] else [strip rest])"
proof -
  obtain cur' sents' where run: "split_loop t [] [] = (cur', sents')"
    by (cases "split_loop t [] []") auto
  have res: "split_sentences t = sents' @ (if strip cur' = [] then [] else [strip cur'])"
    using run by (simp add: split_sentences_def)
  from split_loop_chunks [OF run] show ?thesis
  proof (elim disjE conjE exE)
    assume a: "sents' = []" "cur' = [] @ t" "\<forall>n. length ([]::pystr) < n \<longrightarrow> \<not> closes_at cur' n"
    have "\<forall>n. \<not> closes_at cur' n"
    proof
      fix n show "\<not> closes_at cur' n"
        using a(3) by (cases "n = 0") (auto simp: closes_at_def)
    qed
    then show ?thesis
      by (intro exI [of _ "[]"] exI [of _ cur']) (use a res in simp)
  next
    fix b bufs
    assume a: "sents' = [] @ map strip (b # bufs)" "[] @ t = concat (b # bufs) @ cur'"
      "closes_at b (length b)"
      "\<forall>n. length ([]::pystr) < n \<and> n < length b \<longrightarrow> \<not> closes_at b n"
      "\<forall>x\<in>set bufs. closes_at x (length x) \<and> (\<forall>n<length x. \<not> closes_at x n)"
      "\<forall>n. \<not> closes_at cur' n"
    have b: "\<forall>n<length b. \<not> closes_at b n"
    proof (intro allI impI)
      fix n assume "n < length b"
      then show "\<not> closes_at b n"
        using a(4) by (cases "n = 0") (auto simp: closes_at_def)
    qed
    show ?thesis
      by (intro exI [of _ "b # bufs"] exI [of _ cur']) (use a b res in simp)
  qed
qed

lemma closes_at_strip:
  assumes "closes_at b (length b)"
  shows "strip b \<noteq> []" and "strip b = lstrip b" and "20 \<le> length b"
    and "is_terminator (last b)"
proof -
  from assms have ne: "b \<noteq> []" and tm: "is_terminator (b ! (length b - 1))"
    and len: "20 \<le> length b"
    by (auto simp: closes_at_def)
  from ne tm have l: "is_terminator (last b)" by (simp add: last_conv_nth)
  from ne have b: "b = butlast b @ [last b]" by simp
  from l have ns: "\<not> isspace (last b)" by (rule terminator_not_space)
  show "strip b \<noteq> []" using strip_snoc_nonspace_Nil [OF ns, of "butlast b"] b by simp
  show "strip b = lstrip b" using strip_snoc_nonspace [OF ns, of "butlast b"] b by simp
  show "20 \<le> length b" by (rule len)
  show "is_terminator (last b)" by (rule l)
qed

lemma split_sentences_nonblank: "s \<in> set (split_sentences t) \<Longrightarrow> strip s \<noteq> []"
proof -
  assume s: "s \<in> set (split_sentences t)"
  obtain bufs rest where
    c: "\<forall>b\<in>set bufs. closes_at b (length b) \<and> (\<forall>n<length b. \<not> closes_at b n)"
    and r: "split_sentences t = map strip bufs @ (if strip rest = [] then [] else [strip rest])"
    using split_sentences_chunks [of t] by blast
  from s r have "(\<exists>b\<in>set bufs. s = strip b) \<or> (s = strip rest \<and> strip rest \<noteq> [])"
    by (auto split: if_splits)
  then show ?thesis
  proof
    assume "\<exists>b\<in>set bufs. s = strip b"
    then obtain b where b: "b \<in> set bufs" "s = strip b" by blast
    with c have "strip b \<noteq> []" using closes_at_strip(1) by blast
    then show ?thesis using b by (simp add: strip_strip_Nil)
  next
    assume "s = strip rest \<and> strip rest \<noteq> []"
    then show ?thesis by (simp add: strip_strip_Nil)
  qed
qed

lemmas text_eval = split_sentences_def codepoints_def strip_def lstrip_def rstrip_def
  isspace_def is_terminator_def

section \<open>The segmenter\<close>

text \<open>
  Claim C1, as the code has it. The segmenter closes a segment exactly when the character
  just appended is one of full stop, exclamation mark and question mark and the buffer
  holds at least 20 characters: the text is the concatenation of buffers, each ending at
  the first position where that test holds, followed by a remainder in which it never
  holds; the segments are the trimmed buffers, then the trimmed remainder when it is not
  blank. So every segment but the last is a buffer of at least 20 characters that ends
  in a terminator, less its leading whitespace. The bound is the literal 20 whatever
  \<^verbatim>\<open>max_chunk_length\<close> is: the result of \<^verbatim>\<open>process_long_text\<close> does not depend on
  that parameter.
\<close>

theorem split_sentences_closes_at_20:
  "(\<exists>bufs rest. t = concat bufs @ rest \<and>
      (\<forall>b\<in>set bufs. closes_at b (length b) \<and> (\<forall>n<length b. \<not> closes_at b n)) \<and>
      (\<forall>n. \<not> closes_at rest n) \<and>
      split_sentences t = map strip bufs @ (if strip rest = [] then [] else [strip rest]) \<and>
      (\<forall>i. i + 1 < length (split_sentences t) \<longrightarrow>
         split_sentences t ! i = lstrip (bufs ! i) \<and> 20 \<le> length (bufs ! i) \<and>
         is_terminator (last (bufs ! i)) \<and> is_terminator (last (split_sentences t ! i)))) \<and>
   process_long_text tts ffmpeg reference_audio t output_path language max_chunk_length kwargs w =
   process_long_text tts ffmpeg reference_audio t output_path language max_chunk_length_default kwargs w"
proof
  obtain bufs rest where
    t: "t = concat bufs @ rest"
    and c: "\<forall>b\<in>set bufs. closes_at b (length b) \<and> (\<forall>n<length b. \<not> closes_at b n)"
    and o: "\<forall>n. \<not> closes_at rest n"
    and r: "split_sentences t = map strip bufs @ (if strip rest = [] then [] else [strip rest])"
    using split_sentences_chunks [of t] by blast
  have "split_sentences t ! i = lstrip (bufs ! i) \<and> 20 \<le> length (bufs ! i) \<and>
        is_terminator (last (bufs ! i)) \<and> is_terminator (last (split_sentences t ! i))"
    if i: "i + 1 < length (split_sentences t)" for i
  proof -
    from i r have il: "i < length bufs" by (auto split: if_splits)
    then have cb: "closes_at (bufs ! i) (length (bufs ! i))" using c by simp
    have e: "split_sentences t ! i = strip (bufs ! i)"
      using il r by (simp add: nth_append)
    have ne: "bufs ! i \<noteq> []" using cb by (auto simp: closes_at_def)
    have ns: "\<not> isspace (last (bufs ! i))"
      using closes_at_strip(4) [OF cb] by (rule terminator_not_space)
    have "lstrip (bufs ! i) = lstrip (butlast (bufs ! i) @ [last (bufs ! i)])"
      using ne by simp
    also have "\<dots> = dropWhile isspace (butlast (bufs ! i)) @ [last (bufs ! i)]"
      unfolding lstrip_def by (rule dropWhile_snoc_nonspace [OF ns])
    finally have "last (lstrip (bufs ! i)) = last (bufs ! i)" by simp
    then show ?thesis
      using e closes_at_strip(2,3,4) [OF cb] by simp
  qed
  with t c o r show "\<exists>bufs rest. t = concat bufs @ rest \<and>
      (\<forall>b\<in>set bufs. closes_at b (length b) \<and> (\<forall>n<length b. \<not> closes_at b n)) \<and>
      (\<forall>n. \<not> closes_at rest n) \<and>
      split_sentences t = map strip bufs @ (if strip rest = [] then [] else [strip rest]) \<and>
      (\<forall>i. i + 1 < length (split_sentences t) \<longrightarrow>
         split_sentences t ! i = lstrip (bufs ! i) \<and> 20 \<le> length (bufs ! i) \<and>
         is_terminator (last (bufs ! i)) \<and> is_terminator (last (split_sentences t ! i)))"
    by blast
next
  show "process_long_text tts ffmpeg reference_audio t output_path language max_chunk_length kwargs w =
   process_long_text tts ffmpeg reference_audio t output_path language max_chunk_length_default kwargs w"
    by (simp add: process_long_text_def)
qed

theorem split_sentences_closes_at_20_witness:
  "split_sentences (codepoints ''                   .b'') = [codepoints ''.'', codepoints ''b''] \<and>
   (\<exists>bufs rest. codepoints ''                   .b'' = concat bufs @ rest \<and>
      (\<forall>b\<in>set bufs. closes_at b (length b) \<and> (\<forall>n<length b. \<not> closes_at b n)) \<and>
      (\<forall>n. \<not> closes_at rest n) \<and>
      split_sentences (codepoints ''                   .b'') =
        map strip bufs @ (if strip rest = [] then [] else [strip rest]) \<and>
      (\<forall>i. i + 1 < length (split_sentences (codepoints ''                   .b'')) \<longrightarrow>
         split_sentences (codepoints ''                   .b'') ! i = lstrip (bufs ! i) \<and>
         20 \<le> length (bufs ! i) \<and> is_terminator (last (bufs ! i)) \<and>
         is_terminator (last (split_sentences (codepoints ''                   .b'') ! i))))"
proof
  show "split_sentences (codepoints ''                   .b'') = [codepoints ''.'', codepoints ''b'']"
    by (simp add: text_eval)
  show "\<exists>bufs rest. codepoints ''                   .b'' = concat bufs @ rest \<and>
      (\<forall>b\<in>set bufs. closes_at b (length b) \<and> (\<forall>n<length b. \<not> closes_at b n)) \<and>
      (\<forall>n. \<not> closes_at rest n) \<and>
      split_sentences (codepoints ''                   .b'') =
        map strip bufs @ (if strip rest = [] then [] else [strip rest]) \<and>
      (\<forall>i. i + 1 < length (split_sentences (codepoints ''                   .b'')) \<longrightarrow>
         split_sentences (codepoints ''                   .b'') ! i = lstrip (bufs ! i) \<and>
         20 \<le> length (bufs ! i) \<and> is_terminator (last (bufs ! i)) \<and>
         is_terminator (last (split_sentences (codepoints ''                   .b'') ! i)))"
    using split_sentences_closes_at_20 [of "codepoints ''                   .b''", THEN conjunct1] .
qed

text \<open>
  The claim as the spec words it, with a minimum of 250, fails: a full stop after 20
  characters closes a segment of 20 characters that is not the last.
\<close>

theorem split_sentences_below_250:
  "split_sentences (codepoints ''aaaaaaaaaaaaaaaaaaa.b'') =
     [codepoints ''aaaaaaaaaaaaaaaaaaa.'', codepoints ''b''] \<and>
   length (codepoints ''aaaaaaaaaaaaaaaaaaa.'') < max_chunk_length_default"
  by (simp add: text_eval max_chunk_length_default_def)

text \<open>
  Claim C5. The segments are in the order of the text and none is empty; the characters
  that are not whitespace are the same, in the same order, in the segments as in the
  text; and the segments are the non-empty trimmed forms of consecutive pieces whose
  concatenation is the text. Segment \<open>i\<close> of the list (counted from 0) is staged as
  part \<open>i + 1\<close>.
\<close>

theorem split_sentences_covers:
  "(\<forall>s\<in>set (split_sentences t). s \<noteq> []) \<and>
   filter (\<lambda>c. \<not> isspace c) (concat (split_sentences t)) = filter (\<lambda>c. \<not> isspace c) t \<and>
   (\<exists>bufs. concat bufs = t \<and> split_sentences t = filter (\<lambda>s. s \<noteq> []) (map strip bufs))"
proof -
  obtain bufs rest where
    t: "t = concat bufs @ rest"
    and c: "\<forall>b\<in>set bufs. closes_at b (length b) \<and> (\<forall>n<length b. \<not> closes_at b n)"
    and r: "split_sentences t = map strip bufs @ (if strip rest = [] then [] else [strip rest])"
    using split_sentences_chunks [of t] by blast
  have ne: "\<forall>b\<in>set bufs. strip b \<noteq> []"
    using c closes_at_strip(1) by blast
  have 1: "\<forall>s\<in>set (split_sentences t). s \<noteq> []"
  proof
    fix s assume "s \<in> set (split_sentences t)"
    then have "strip s \<noteq> []" by (rule split_sentences_nonblank)
    then show "s \<noteq> []" by (auto simp: strip_def lstrip_def rstrip_def)
  qed
  have f: "filter (\<lambda>c. \<not> isspace c) (concat (map strip xs)) = filter (\<lambda>c. \<not> isspace c) (concat xs)"
    for xs
    by (induction xs) (simp_all add: filter_strip)
  have "filter (\<lambda>c. \<not> isspace c) (concat (split_sentences t)) =
        filter (\<lambda>c. \<not> isspace c) (concat (map strip (bufs @ [rest])))"
    using r by (simp add: strip_eq_Nil_iff [symmetric] del: strip_eq_Nil_iff)
  then have 2: "filter (\<lambda>c. \<not> isspace c) (concat (split_sentences t)) = filter (\<lambda>c. \<not> isspace c) t"
    using t f [of "bufs @ [rest]"] by simp
  have "filter (\<lambda>s. s \<noteq> []) (map strip bufs) = map strip bufs"
    using ne by (simp add: filter_id_conv)
  then have "split_sentences t = filter (\<lambda>s. s \<noteq> []) (map strip (bufs @ [rest]))"
    using r by simp
  moreover have "concat (bufs @ [rest]) = t" using t by simp
  ultimately have 3: "\<exists>bufs. concat bufs = t \<and> split_sentences t = filter (\<lambda>s. s \<noteq> []) (map strip bufs)"
    by blast
  from 1 2 3 show ?thesis by blast
qed

theorem split_sentences_covers_witness:
  "[] \<notin> set (split_sentences (codepoints ''One sentence is here. Two  '')) \<and>
   filter (\<lambda>c. \<not> isspace c) (concat (split_sentences (codepoints ''One sentence is here. Two  ''))) =
     filter (\<lambda>c. \<not> isspace c) (codepoints ''One sentence is here. Two  '') \<and>
   split_sentences (codepoints ''One sentence is here. Two  '') =
     [codepoints ''One sentence is here.'', codepoints ''Two'']"
proof -
  have "split_sentences (codepoints ''One sentence is here. Two  '') =
     [codepoints ''One sentence is here.'', codepoints ''Two'']"
    by (simp add: text_eval)
  then show ?thesis
    using split_sentences_covers [of "codepoints ''One sentence is here. Two  ''"] by auto
qed

section \<open>Preset resolution\<close>

text \<open>
  Claim C6. Resolution starts from the neutral preset (0.75, 10.0, 1.0); a given preset
  name replaces that base by its own triple; then every override that is supplied
  replaces its one field and the fields without an override keep the base's value. So
  preset "expressive" with the override speed = 1.5 gives (0.85, 5.0, 1.5), and no preset
  with no override gives the neutral triple.
\<close>

theorem resolve_gen_params_order:
  "resolve_gen_params p t r s =
     \<lparr>temperature =
        (case t of Some v \<Rightarrow> v
         | None \<Rightarrow> temperature (GENERATION_PRESETS (case p of None \<Rightarrow> Neutral | Some n \<Rightarrow> n))),
      repetition_penalty =
        (case r of Some v \<Rightarrow> v
         | None \<Rightarrow> repetition_penalty (GENERATION_PRESETS (case p of None \<Rightarrow> Neutral | Some n \<Rightarrow> n))),
      speed =
        (case s of Some v \<Rightarrow> v
         | None \<Rightarrow> speed (GENERATION_PRESETS (case p of None \<Rightarrow> Neutral | Some n \<Rightarrow> n)))\<rparr>
   \<and> GENERATION_PRESETS Neutral = \<lparr>temperature = 0.75, repetition_penalty = 10.0, speed = 1.0\<rparr>
   \<and> resolve_gen_params (Some Expressive) None None (Some 1.5) =
       \<lparr>temperature = 0.85, repetition_penalty = 5.0, speed = 1.5\<rparr>
   \<and> resolve_gen_params None None None None =
       \<lparr>temperature = 0.75, repetition_penalty = 10.0, speed = 1.0\<rparr>"
  by (simp add: resolve_gen_params_def split: option.splits)

section \<open>The staging of segments\<close>

subsection \<open>Names of the parts\<close>

lemma digit_code: "d < 10 \<Longrightarrow> (of_char (''0123456789'' ! d) :: nat) = 48 + d"
proof -
  assume "d < 10"
  then have "d \<in> {9, 8, 7, 6, 5, 4, 3, 2, 1, 0}"
    by auto
  then show ?thesis by (elim insertE) simp_all
qed

lemma decimal_value:
  "foldl (\<lambda>a c. 10 * a + (of_char c - 48)) (0::nat) (decimal n) = n"
proof (induction n rule: decimal.induct)
  case (1 n)
  show ?case
  proof (cases "n < 10")
    case True
    then show ?thesis by (subst decimal.simps) (simp add: digit_code)
  next
    case False
    then have "foldl (\<lambda>a c. 10 * a + (of_char c - 48)) (0::nat) (decimal (n div 10)) = n div 10"
      using "1.IH" by simp
    moreover have "(of_char (''0123456789'' ! (n mod 10)) :: nat) = 48 + n mod 10"
      by (rule digit_code) simp
    ultimately show ?thesis using False
      by (subst decimal.simps) simp
  qed
qed

lemma zeros_value:
  "foldl (\<lambda>a c. 10 * a + (of_char c - 48)) (0::nat) (replicate k (CHR ''0'')) = 0"
  by (induction k) simp_all

lemma zfill_value:
  "foldl (\<lambda>a c. 10 * a + (of_char c - 48)) (0::nat) (zfill k (decimal n)) = n"
  by (simp add: zfill_def zeros_value decimal_value)

lemma part_name_inj: "part_name a = part_name b \<Longrightarrow> a = b"
proof -
  assume "part_name a = part_name b"
  then have "zfill 4 (decimal a) = zfill 4 (decimal b)"
    by (simp add: part_name_def)
  then have "foldl (\<lambda>a c. 10 * a + (of_char c - 48)) (0::nat) (zfill 4 (decimal a)) =
             foldl (\<lambda>a c. 10 * a + (of_char c - 48)) (0::nat) (zfill 4 (decimal b))"
    by simp
  then show ?thesis by (simp only: zfill_value)
qed

lemma part_filename_inj [simp]: "part_filename d i = part_filename d j \<longleftrightarrow> i = j"
  by (auto simp: part_filename_def join_def dest: part_name_inj)

lemma part_name_not_list: "part_name k \<noteq> ''input_list.txt''"
  by (simp add: part_name_def)

lemma part_not_output [simp]:
  "part_filename (parts_dir_of out) i \<noteq> out" "out \<noteq> part_filename (parts_dir_of out) i"
proof -
  have "length (part_filename (parts_dir_of out) i) \<noteq> length out"
    by (simp add: part_filename_def parts_dir_of_def join_def dirname_def)
  then show "part_filename (parts_dir_of out) i \<noteq> out" "out \<noteq> part_filename (parts_dir_of out) i"
    by auto
qed

lemma list_not_output [simp]:
  "join (parts_dir_of out) ''input_list.txt'' \<noteq> out"
  "out \<noteq> join (parts_dir_of out) ''input_list.txt''"
proof -
  have "length (join (parts_dir_of out) ''input_list.txt'') \<noteq> length out"
    by (simp add: parts_dir_of_def join_def dirname_def)
  then show "join (parts_dir_of out) ''input_list.txt'' \<noteq> out"
    "out \<noteq> join (parts_dir_of out) ''input_list.txt''"
    by auto
qed

lemma part_not_list [simp]:
  "part_filename d i \<noteq> join d ''input_list.txt''"
  "join d ''input_list.txt'' \<noteq> part_filename d i"
  using part_name_not_list [of "i + 1"] by (auto simp: part_filename_def join_def)

lemma makedirs_existing: "f q \<noteq> None \<Longrightarrow> makedirs f p q = f q"
  by (simp add: makedirs_def)

lemma makedirs_below [simp]:
  "makedirs f d (join d name) = f (join d name)"
  "makedirs f d (part_filename d i) = f (part_filename d i)"
  by (simp_all add: makedirs_def part_filename_def join_def)

subsection \<open>One call of the engine\<close>

lemma tts_to_file_calls: "calls (fst (tts_to_file tts rq w)) = calls w @ [rq]"
  by (simp add: tts_to_file_def split: outcome.splits)

lemma tts_to_file_other: "q \<noteq> req_file_path rq \<Longrightarrow> files (fst (tts_to_file tts rq w)) q = files w q"
  by (simp add: tts_to_file_def split: outcome.splits)


subsection \<open>The loop over the segments\<close>

lemma synth_segments_Cons:
  "synth_segments tts ref lang kw d ((i, s) # rest) (w, tw) =
     (if strip s = [] then synth_segments tts ref lang kw d rest (w, tw)
      else if path_exists (files w) (part_filename d i)
      then synth_segments tts ref lang kw d rest (w, tw @ [part_filename d i])
      else synth_segments tts ref lang kw d rest
             (fst (tts_to_file tts
                \<lparr>req_text = s, req_speaker_wav = ref, req_language = lang,
                 req_file_path = part_filename d i, req_kwargs = kw\<rparr> w),
              tw @ [part_filename d i]))"
  by (simp add: Let_def split: prod.splits sum.splits)

declare synth_segments.simps(2) [simp del]

text \<open>A path that is not the part of any segment of the list is left alone.\<close>

lemma synth_segments_frame:
  "p \<notin> part_filename d ` fst ` set xs \<Longrightarrow>
   synth_segments tts ref lang kw d xs (w, tw) = (w', tw') \<Longrightarrow>
   files w' p = files w p \<and>
   filter (\<lambda>r. req_file_path r = p) (calls w') = filter (\<lambda>r. req_file_path r = p) (calls w)"
proof (induction xs arbitrary: w tw)
  case Nil
  then show ?case by simp
next
  case (Cons x xs)
  obtain i s where x: "x = (i, s)" by (cases x)
  from Cons.prems(1) x have pi: "p \<noteq> part_filename d i"
    and rest: "p \<notin> part_filename d ` fst ` set xs"
    by auto
  let ?rq = "\<lparr>req_text = s, req_speaker_wav = ref, req_language = lang,
               req_file_path = part_filename d i, req_kwargs = kw\<rparr>"
  let ?w1 = "fst (tts_to_file tts ?rq w)"
  have 1: "files ?w1 p = files w p" using pi by (simp add: tts_to_file_other)
  have 2: "filter (\<lambda>r. req_file_path r = p) (calls ?w1) = filter (\<lambda>r. req_file_path r = p) (calls w)"
    using pi by (simp add: tts_to_file_calls)
  from Cons.prems(2) x consider
      "synth_segments tts ref lang kw d xs (w, tw) = (w', tw')"
    | "synth_segments tts ref lang kw d xs (w, tw @ [part_filename d i]) = (w', tw')"
    | "synth_segments tts ref lang kw d xs (?w1, tw @ [part_filename d i]) = (w', tw')"
    by (auto simp: synth_segments_Cons split: if_splits)
  then show ?case
  proof cases
    case 1
    from Cons.IH [OF rest 1] show ?thesis .
  next
    case 2
    from Cons.IH [OF rest 2] show ?thesis .
  next
    case 3
    from Cons.IH [OF rest 3] 1 2 show ?thesis by simp
  qed
qed

text \<open>A path that exists when the loop starts is never synthesised and never written.\<close>

lemma synth_segments_keeps_existing:
  "files w p \<noteq> None \<Longrightarrow>
   synth_segments tts ref lang kw d xs (w, tw) = (w', tw') \<Longrightarrow>
   files w' p = files w p \<and>
   filter (\<lambda>r. req_file_path r = p) (calls w') = filter (\<lambda>r. req_file_path r = p) (calls w)"
proof (induction xs arbitrary: w tw)
  case Nil
  then show ?case by simp
next
  case (Cons x xs)
  obtain i s where x: "x = (i, s)" by (cases x)
  let ?rq = "\<lparr>req_text = s, req_speaker_wav = ref, req_language = lang,
               req_file_path = part_filename d i, req_kwargs = kw\<rparr>"
  let ?w1 = "fst (tts_to_file tts ?rq w)"
  from Cons.prems(2) x consider
      "synth_segments tts ref lang kw d xs (w, tw) = (w', tw')"
    | "synth_segments tts ref lang kw d xs (w, tw @ [part_filename d i]) = (w', tw')"
    | "\<not> path_exists (files w) (part_filename d i)"
      "synth_segments tts ref lang kw d xs (?w1, tw @ [part_filename d i]) = (w', tw')"
    by (auto simp: synth_segments_Cons split: if_splits)
  then show ?case
  proof cases
    case 1
    from Cons.IH [OF Cons.prems(1) 1] show ?thesis .
  next
    case 2
    from Cons.IH [OF Cons.prems(1) 2] show ?thesis .
  next
    case 3
    from 3(1) Cons.prems(1) have pi: "p \<noteq> part_filename d i"
      by (auto simp: path_exists_def)
    have a: "files ?w1 p = files w p" using pi by (simp add: tts_to_file_other)
    have b: "filter (\<lambda>r. req_file_path r = p) (calls ?w1) = filter (\<lambda>r. req_file_path r = p) (calls w)"
      using pi by (simp add: tts_to_file_calls)
    from a Cons.prems(1) have "files ?w1 p \<noteq> None" by simp
    from Cons.IH [OF this 3(2)] a b show ?thesis by simp
  qed
qed


text \<open>
  The calls the loop adds to the log: each is the request for the part of one of its
  segments.
\<close>

lemma synth_segments_new_calls:
  "synth_segments tts ref lang kw d xs (w, tw) = (w', tw') \<Longrightarrow>
   \<exists>new. calls w' = calls w @ new \<and>
     set new \<subseteq> (\<lambda>x. \<lparr>req_text = snd x, req_speaker_wav = ref, req_language = lang,
                        req_file_path = part_filename d (fst x), req_kwargs = kw\<rparr>) ` set xs"
proof (induction xs arbitrary: w tw)
  case Nil
  then show ?case by simp
next
  case (Cons x xs)
  obtain i s where x: "x = (i, s)" by (cases x)
  let ?f = "\<lambda>x. \<lparr>req_text = snd x, req_speaker_wav = ref, req_language = lang,
                  req_file_path = part_filename d (fst x), req_kwargs = kw\<rparr>"
  let ?rq = "\<lparr>req_text = s, req_speaker_wav = ref, req_language = lang,
               req_file_path = part_filename d i, req_kwargs = kw\<rparr>"
  let ?w1 = "fst (tts_to_file tts ?rq w)"
  have up: "?f ` set xs \<subseteq> ?f ` set (x # xs)" by (rule image_mono) (rule set_subset_Cons)
  have hd: "?rq \<in> ?f ` set (x # xs)" unfolding x by (rule image_eqI [of _ _ "(i, s)"]) simp_all
  from Cons.prems x consider
      "synth_segments tts ref lang kw d xs (w, tw) = (w', tw')"
    | "synth_segments tts ref lang kw d xs (w, tw @ [part_filename d i]) = (w', tw')"
    | "synth_segments tts ref lang kw d xs (?w1, tw @ [part_filename d i]) = (w', tw')"
    by (auto simp: synth_segments_Cons split: if_splits)
  then show ?case
  proof cases
    case 1
    from Cons.IH [OF 1] obtain new where
      n: "calls w' = calls w @ new" and p: "set new \<subseteq> ?f ` set xs"
      by blast
    from p up have "set new \<subseteq> ?f ` set (x # xs)" by (rule subset_trans)
    with n show ?thesis by blast
  next
    case 2
    from Cons.IH [OF 2] obtain new where
      n: "calls w' = calls w @ new" and p: "set new \<subseteq> ?f ` set xs"
      by blast
    from p up have "set new \<subseteq> ?f ` set (x # xs)" by (rule subset_trans)
    with n show ?thesis by blast
  next
    case 3
    from Cons.IH [OF 3] obtain new where
      n: "calls w' = calls ?w1 @ new" and p: "set new \<subseteq> ?f ` set xs"
      by blast
    have a: "calls w' = calls w @ (?rq # new)"
      using n by (simp add: tts_to_file_calls)
    from p up have "set new \<subseteq> ?f ` set (x # xs)" by (rule subset_trans)
    with hd have b: "set (?rq # new) \<subseteq> ?f ` set (x # xs)" by simp
    from a b show ?thesis by blast
  qed
qed


subsection \<open>The direct call and the join\<close>

lemma clone_voice_eq:
  "clone_voice tts ref t out lang kw w =
     (fst (tts_to_file tts \<lparr>req_text = t, req_speaker_wav = ref, req_language = lang,
                           req_file_path = out, req_kwargs = kw\<rparr> w),
      case tts (calls w) \<lparr>req_text = t, req_speaker_wav = ref, req_language = lang,
                          req_file_path = out, req_kwargs = kw\<rparr> of
        Wrote a \<Rightarrow> Inr out | Raised \<Rightarrow> Inl SynthesisError)"
  by (simp add: clone_voice_def tts_to_file_def split: outcome.splits)

lemma concat_parts_calls [simp]: "calls (fst (concat_parts ffmpeg d tw out w)) = calls w"
  by (simp add: concat_parts_def Let_def split: join_outcome.splits option.splits)

lemma concat_parts_other:
  "q \<noteq> join d ''input_list.txt'' \<Longrightarrow> q \<noteq> out \<Longrightarrow>
   files (fst (concat_parts ffmpeg d tw out w)) q = files w q"
  by (simp add: concat_parts_def Let_def split: join_outcome.splits option.splits)


lemma concat_parts_closed:
  "\<not> can_open_w (files w) (join d ''input_list.txt'') \<Longrightarrow>
   concat_parts ffmpeg d tw out w = (w, Inl OSError)"
  by (simp add: concat_parts_def Let_def)

subsection \<open>The whole of process_long_text\<close>

lemma process_long_text_short:
  "length (split_sentences t) \<le> 1 \<Longrightarrow>
   process_long_text tts ffmpeg ref t out lang m kw w =
     clone_voice tts ref t out lang kw
       (if \<not> path_exists (files w) (parts_dir_of out)
        then w\<lparr>files := makedirs (files w) (parts_dir_of out)\<rparr> else w)"
  by (simp add: process_long_text_def Let_def)

lemma process_long_text_long:
  "1 < length (split_sentences t) \<Longrightarrow>
   synth_segments tts ref lang kw (parts_dir_of out) (enumerate 0 (split_sentences t))
     (if \<not> path_exists (files w) (parts_dir_of out)
      then w\<lparr>files := makedirs (files w) (parts_dir_of out)\<rparr> else w, []) = (w2, tw) \<Longrightarrow>
   process_long_text tts ffmpeg ref t out lang m kw w =
     (fst (concat_parts ffmpeg (parts_dir_of out) tw out w2),
      case snd (concat_parts ffmpeg (parts_dir_of out) tw out w2) of
        Inl e \<Rightarrow> Inl e | Inr u \<Rightarrow> Inr out)"
  by (simp add: process_long_text_def Let_def split: prod.splits sum.splits)

text \<open>A part that exists when the function is entered: no call for it, and it is kept.\<close>

lemma process_long_text_keeps_existing_part:
  assumes ex: "files w (part_filename (parts_dir_of out) k) \<noteq> None"
    and run: "process_long_text tts ffmpeg ref t out lang m kw w = (w', res)"
  shows "files w' (part_filename (parts_dir_of out) k) = files w (part_filename (parts_dir_of out) k)"
    and "filter (\<lambda>r. req_file_path r = part_filename (parts_dir_of out) k) (calls w') =
         filter (\<lambda>r. req_file_path r = part_filename (parts_dir_of out) k) (calls w)"
proof -
  let ?d = "parts_dir_of out"
  let ?p = "part_filename ?d k"
  let ?w1 = "if \<not> path_exists (files w) ?d then w\<lparr>files := makedirs (files w) ?d\<rparr> else w"
  have f1: "files ?w1 ?p = files w ?p" by simp
  have c1: "calls ?w1 = calls w" by simp
  have "files w' ?p = files w ?p \<and>
        filter (\<lambda>r. req_file_path r = ?p) (calls w') = filter (\<lambda>r. req_file_path r = ?p) (calls w)"
  proof (cases "length (split_sentences t) \<le> 1")
    case True
    let ?rq = "\<lparr>req_text = t, req_speaker_wav = ref, req_language = lang,
                 req_file_path = out, req_kwargs = kw\<rparr>"
    from run True have w': "w' = fst (tts_to_file tts ?rq ?w1)"
      by (simp only: process_long_text_short clone_voice_eq prod.inject)
    have "files w' ?p = files ?w1 ?p"
      unfolding w' by (rule tts_to_file_other) simp
    moreover have "calls w' = calls ?w1 @ [?rq]"
      unfolding w' by (rule tts_to_file_calls)
    ultimately show ?thesis using f1 c1 by simp
  next
    case False
    then have long: "1 < length (split_sentences t)" by simp
    obtain w2 tw where loop:
      "synth_segments tts ref lang kw ?d (enumerate 0 (split_sentences t)) (?w1, []) = (w2, tw)"
      by (cases "synth_segments tts ref lang kw ?d (enumerate 0 (split_sentences t)) (?w1, [])")
    from run process_long_text_long [OF long loop]
    have w': "w' = fst (concat_parts ffmpeg ?d tw out w2)"
      by simp
    have "files ?w1 ?p \<noteq> None" using ex f1 by simp
    from synth_segments_keeps_existing [OF this loop]
    have "files w2 ?p = files ?w1 ?p"
      and "filter (\<lambda>r. req_file_path r = ?p) (calls w2) = filter (\<lambda>r. req_file_path r = ?p) (calls ?w1)"
      by simp_all
    moreover have "files w' ?p = files w2 ?p"
      unfolding w' by (rule concat_parts_other) simp_all
    moreover have "calls w' = calls w2" unfolding w' by simp
    ultimately show ?thesis using f1 c1 by simp
  qed
  then show "files w' ?p = files w ?p"
    and "filter (\<lambda>r. req_file_path r = ?p) (calls w') = filter (\<lambda>r. req_file_path r = ?p) (calls w)"
    by simp_all
qed

lemma process_long_text_calls_extend:
  "process_long_text tts ffmpeg ref t out lang m kw w = (w', res) \<Longrightarrow>
   \<exists>new. calls w' = calls w @ new"
proof -
  assume run: "process_long_text tts ffmpeg ref t out lang m kw w = (w', res)"
  let ?d = "parts_dir_of out"
  let ?w1 = "if \<not> path_exists (files w) ?d then w\<lparr>files := makedirs (files w) ?d\<rparr> else w"
  have c1: "calls ?w1 = calls w" by simp
  show ?thesis
  proof (cases "length (split_sentences t) \<le> 1")
    case True
    let ?rq = "\<lparr>req_text = t, req_speaker_wav = ref, req_language = lang,
                 req_file_path = out, req_kwargs = kw\<rparr>"
    from run True have w': "w' = fst (tts_to_file tts ?rq ?w1)"
      by (simp only: process_long_text_short clone_voice_eq prod.inject)
    have "calls w' = calls ?w1 @ [?rq]"
      unfolding w' by (rule tts_to_file_calls)
    then show ?thesis using c1 by simp
  next
    case False
    then have long: "1 < length (split_sentences t)" by simp
    obtain w2 tw where loop:
      "synth_segments tts ref lang kw ?d (enumerate 0 (split_sentences t)) (?w1, []) = (w2, tw)"
      by (cases "synth_segments tts ref lang kw ?d (enumerate 0 (split_sentences t)) (?w1, [])")
    from run process_long_text_long [OF long loop]
    have w': "w' = fst (concat_parts ffmpeg ?d tw out w2)"
      by simp
    from synth_segments_new_calls [OF loop] obtain new where "calls w2 = calls ?w1 @ new"
      by blast
    then show ?thesis unfolding w' using c1 by simp
  qed
qed

lemma no_new_calls_for:
  "calls w' = calls w @ new \<Longrightarrow>
   filter (\<lambda>r. req_file_path r = p) (calls w') = filter (\<lambda>r. req_file_path r = p) (calls w) \<Longrightarrow>
   \<forall>r\<in>set new. req_file_path r \<noteq> p"
  by (simp add: filter_empty_conv)







text \<open>In the other case the manifest cannot be opened and the function raises.\<close>

lemma process_long_text_manifest_closed:
  assumes long: "1 < length (split_sentences t)"
    and reg: "files w (parts_dir_of out) = Some (File bytes)"
  shows "snd (process_long_text tts ffmpeg ref t out lang m kw w) = Inl OSError"
proof -
  let ?d = "parts_dir_of out"
  let ?l = "join ?d ''input_list.txt''"
  let ?xs = "enumerate 0 (split_sentences t)"
  from reg have ex: "path_exists (files w) ?d" by (simp add: path_exists_def)
  obtain w2 tw where loop: "synth_segments tts ref lang kw ?d ?xs (w, []) = (w2, tw)"
    by (cases "synth_segments tts ref lang kw ?d ?xs (w, [])")
  have "?d \<notin> part_filename ?d ` fst ` set ?xs"
    by (auto simp: part_filename_def join_def)
  from synth_segments_frame [OF this loop] reg have "files w2 ?d = Some (File bytes)" by simp
  moreover have "?d \<noteq> []" by (simp add: parts_dir_of_def join_def)
  ultimately have cl: "\<not> can_open_w (files w2) ?l"
    by (simp add: can_open_w_def dirname_def join_def)
  from loop ex have loop': "synth_segments tts ref lang kw ?d ?xs
     (if \<not> path_exists (files w) ?d then w\<lparr>files := makedirs (files w) ?d\<rparr> else w, []) = (w2, tw)"
    by simp
  show ?thesis
    unfolding process_long_text_long [OF long loop'] concat_parts_closed [OF cl] by simp
qed

subsection \<open>Evaluation at the example inputs\<close>

lemma replicate_numeral: "replicate (numeral k) x = x # replicate (pred_numeral k) x"
  by (simp add: numeral_eq_Suc)

lemmas run_eval = process_long_text_def text_eval parts_dir_of_def part_filename_def
  part_name_def zfill_def decimal.simps replicate_numeral join_def dirname_def path_exists_def
  makedirs_def can_open_w_def tts_to_file_def concat_parts_def input_list_text_def manifest_line_def
  safe_path_def clone_voice_def synth_segments_Cons Let_def



section \<open>Resuming over staged parts\<close>

text \<open>
  Claim C3. When the parts of segments 1..k exist and are not empty at the start of a
  run, the run asks the engine for none of them and leaves each of them as it was: the
  test for existence comes before the call, so every call the run adds to the log goes
  to another path.
\<close>

theorem resume_skips_staged_segments:
  assumes staged: "\<forall>j<k. \<exists>audio. files w (part_filename (parts_dir_of output_path) j) = Some (File audio) \<and> audio \<noteq> []"
    and run: "process_long_text tts ffmpeg reference_audio t output_path language max_chunk_length
                kwargs w = (w', res)"
  shows "\<exists>new. calls w' = calls w @ new \<and>
           (\<forall>j<k. \<forall>r\<in>set new. req_file_path r \<noteq> part_filename (parts_dir_of output_path) j) \<and>
           (\<forall>j<k. files w' (part_filename (parts_dir_of output_path) j) =
                   files w (part_filename (parts_dir_of output_path) j))"
proof -
  obtain new where new: "calls w' = calls w @ new"
    using process_long_text_calls_extend [OF run] by blast
  have "\<forall>r\<in>set new. req_file_path r \<noteq> part_filename (parts_dir_of output_path) j"
    and "files w' (part_filename (parts_dir_of output_path) j) =
         files w (part_filename (parts_dir_of output_path) j)"
    if "j < k" for j
  proof -
    from staged that have ex: "files w (part_filename (parts_dir_of output_path) j) \<noteq> None"
      by auto
    show "\<forall>r\<in>set new. req_file_path r \<noteq> part_filename (parts_dir_of output_path) j"
      using new process_long_text_keeps_existing_part(2) [OF ex run]
      by (rule no_new_calls_for)
    show "files w' (part_filename (parts_dir_of output_path) j) =
          files w (part_filename (parts_dir_of output_path) j)"
      by (rule process_long_text_keeps_existing_part(1) [OF ex run])
  qed
  with new show ?thesis by blast
qed

theorem resume_skips_staged_segments_witness:
  "calls (fst (process_long_text always_writes join_ok [''ref.wav''] two_sentences [''out.wav'']
       ''en'' 250 (GENERATION_PRESETS Neutral)
       \<lparr>files = [[''voice_parts'', ''part_0001.wav''] \<mapsto> File ''x''], calls = []\<rparr>)) =
     [\<lparr>req_text = codepoints ''Two'', req_speaker_wav = [''ref.wav''], req_language = ''en'',
       req_file_path = [''voice_parts'', ''part_0002.wav''],
       req_kwargs = GENERATION_PRESETS Neutral\<rparr>] \<and>
   files (fst (process_long_text always_writes join_ok [''ref.wav''] two_sentences [''out.wav'']
       ''en'' 250 (GENERATION_PRESETS Neutral)
       \<lparr>files = [[''voice_parts'', ''part_0001.wav''] \<mapsto> File ''x''], calls = []\<rparr>))
     [''voice_parts'', ''part_0001.wav''] = Some (File ''x'')"
proof -
  let ?w = "\<lparr>files = [[''voice_parts'', ''part_0001.wav''] \<mapsto> File ''x''], calls = []\<rparr>"
  let ?run = "process_long_text always_writes join_ok [''ref.wav''] two_sentences [''out.wav'']
       ''en'' 250 (GENERATION_PRESETS Neutral) ?w"
  have p: "part_filename (parts_dir_of [''out.wav'']) 0 = [''voice_parts'', ''part_0001.wav'']"
    by (simp add: run_eval)
  have staged: "\<forall>j<1. \<exists>audio. files ?w (part_filename (parts_dir_of [''out.wav'']) j) =
      Some (File audio) \<and> audio \<noteq> []"
    by (simp add: p)
  have "calls (fst ?run) = [\<lparr>req_text = codepoints ''Two'', req_speaker_wav = [''ref.wav''],
       req_language = ''en'', req_file_path = [''voice_parts'', ''part_0002.wav''],
       req_kwargs = GENERATION_PRESETS Neutral\<rparr>]"
    by (simp add: run_eval)
  moreover have "files (fst ?run) [''voice_parts'', ''part_0001.wav''] = Some (File ''x'')"
    using resume_skips_staged_segments [OF staged surjective_pairing] p by auto
  ultimately show ?thesis by simp
qed

text \<open>
  Claim C10. A part that exists with zero bytes is skipped like a complete one: the run
  never asks the engine for it and the empty file is still there afterwards. The test
  is for existence only.
\<close>

theorem resume_skips_empty_artifact:
  assumes empty: "files w (part_filename (parts_dir_of output_path) k) = Some (File [])"
    and run: "process_long_text tts ffmpeg reference_audio t output_path language max_chunk_length
                kwargs w = (w', res)"
  shows "\<exists>new. calls w' = calls w @ new \<and>
           (\<forall>r\<in>set new. req_file_path r \<noteq> part_filename (parts_dir_of output_path) k) \<and>
           files w' (part_filename (parts_dir_of output_path) k) = Some (File [])"
proof -
  obtain new where new: "calls w' = calls w @ new"
    using process_long_text_calls_extend [OF run] by blast
  from empty have ex: "files w (part_filename (parts_dir_of output_path) k) \<noteq> None"
    by simp
  have "\<forall>r\<in>set new. req_file_path r \<noteq> part_filename (parts_dir_of output_path) k"
    using new process_long_text_keeps_existing_part(2) [OF ex run]
    by (rule no_new_calls_for)
  moreover have "files w' (part_filename (parts_dir_of output_path) k) = Some (File [])"
    using process_long_text_keeps_existing_part(1) [OF ex run] empty by simp
  ultimately show ?thesis using new by blast
qed

theorem resume_skips_empty_artifact_witness:
  "calls (fst (process_long_text always_writes join_ok [''ref.wav''] two_sentences [''out.wav'']
       ''en'' 250 (GENERATION_PRESETS Neutral)
       \<lparr>files = [[''voice_parts'', ''part_0002.wav''] \<mapsto> File []], calls = []\<rparr>)) =
     [\<lparr>req_text = codepoints ''One sentence is here.'', req_speaker_wav = [''ref.wav''],
       req_language = ''en'', req_file_path = [''voice_parts'', ''part_0001.wav''],
       req_kwargs = GENERATION_PRESETS Neutral\<rparr>] \<and>
   files (fst (process_long_text always_writes join_ok [''ref.wav''] two_sentences [''out.wav'']
       ''en'' 250 (GENERATION_PRESETS Neutral)
       \<lparr>files = [[''voice_parts'', ''part_0002.wav''] \<mapsto> File []], calls = []\<rparr>))
     [''voice_parts'', ''part_0002.wav''] = Some (File [])"
proof -
  let ?w = "\<lparr>files = [[''voice_parts'', ''part_0002.wav''] \<mapsto> File []], calls = []\<rparr>"
  let ?run = "process_long_text always_writes join_ok [''ref.wav''] two_sentences [''out.wav'']
       ''en'' 250 (GENERATION_PRESETS Neutral) ?w"
  have p: "part_filename (parts_dir_of [''out.wav'']) (Suc 0) = [''voice_parts'', ''part_0002.wav'']"
    by (simp add: run_eval)
  have empty: "files ?w (part_filename (parts_dir_of [''out.wav'']) (Suc 0)) = Some (File [])"
    by (simp add: p)
  have "calls (fst ?run) = [\<lparr>req_text = codepoints ''One sentence is here.'',
       req_speaker_wav = [''ref.wav''], req_language = ''en'',
       req_file_path = [''voice_parts'', ''part_0001.wav''],
       req_kwargs = GENERATION_PRESETS Neutral\<rparr>]"
    by (simp add: run_eval)
  moreover have "files (fst ?run) [''voice_parts'', ''part_0002.wav''] = Some (File [])"
    using resume_skips_empty_artifact [OF empty surjective_pairing] p by auto
  ultimately show ?thesis by simp
qed

section \<open>A segment whose synthesis fails\<close>




section \<open>The direct path\<close>




text \<open>
  Claim C8. For a text of at most 500 characters the cutoff of \<^verbatim>\<open>main\<close>, taken on the
  length of the text before any splitting, goes to \<^verbatim>\<open>clone_voice\<close>: one call of the
  engine against the output path, no path but the output path changes, and no
  directory is created.
\<close>

theorem short_text_single_shot:
  assumes short: "length t \<le> 500"
    and run: "main_generate tts ffmpeg ref_wav t output language gen_params w = (w', res)"
  shows "calls w' = calls w @
           [\<lparr>req_text = t, req_speaker_wav = ref_wav, req_language = language,
             req_file_path = output, req_kwargs = gen_params\<rparr>] \<and>
         (\<forall>q. q \<noteq> output \<longrightarrow> files w' q = files w q) \<and>
         (\<forall>q. files w' q = Some Dir \<longrightarrow> files w q = Some Dir)"
proof -
  let ?rq = "\<lparr>req_text = t, req_speaker_wav = ref_wav, req_language = language,
               req_file_path = output, req_kwargs = gen_params\<rparr>"
  from run short have w': "w' = fst (tts_to_file tts ?rq w)"
    by (simp add: main_generate_def clone_voice_eq)
  have 1: "calls w' = calls w @ [?rq]"
    unfolding w' by (simp add: tts_to_file_calls)
  have 2: "\<forall>q. q \<noteq> output \<longrightarrow> files w' q = files w q"
    unfolding w' by (simp add: tts_to_file_other)
  have 3: "\<forall>q. files w' q = Some Dir \<longrightarrow> files w q = Some Dir"
    unfolding w' by (auto simp: tts_to_file_def split: outcome.splits if_splits)
  from 1 2 3 show ?thesis by blast
qed

theorem short_text_single_shot_witness:
  "main_generate always_writes join_ok [''ref.wav''] (codepoints ''Hi.'') [''out.wav''] ''en''
     (GENERATION_PRESETS Neutral) empty_world =
     (\<lparr>files = [[''out.wav''] \<mapsto> File ''a''],
       calls = [\<lparr>req_text = codepoints ''Hi.'', req_speaker_wav = [''ref.wav''],
                 req_language = ''en'', req_file_path = [''out.wav''],
                 req_kwargs = GENERATION_PRESETS Neutral\<rparr>]\<rparr>, Inr [''out.wav'']) \<and>
   files (fst (main_generate always_writes join_ok [''ref.wav''] (codepoints ''Hi.'') [''out.wav'']
     ''en'' (GENERATION_PRESETS Neutral) empty_world)) [''voice_parts''] = None"
proof -
  have short: "length (codepoints ''Hi.'') \<le> 500" by (simp add: codepoints_def)
  have "main_generate always_writes join_ok [''ref.wav''] (codepoints ''Hi.'') [''out.wav''] ''en''
     (GENERATION_PRESETS Neutral) empty_world =
     (\<lparr>files = [[''out.wav''] \<mapsto> File ''a''],
       calls = [\<lparr>req_text = codepoints ''Hi.'', req_speaker_wav = [''ref.wav''],
                 req_language = ''en'', req_file_path = [''out.wav''],
                 req_kwargs = GENERATION_PRESETS Neutral\<rparr>]\<rparr>, Inr [''out.wav''])"
    by (simp add: main_generate_def codepoints_def clone_voice_def tts_to_file_def)
  moreover have "files (fst (main_generate always_writes join_ok [''ref.wav''] (codepoints ''Hi.'')
     [''out.wav''] ''en'' (GENERATION_PRESETS Neutral) empty_world)) [''voice_parts''] = None"
    using short_text_single_shot [OF short surjective_pairing, of always_writes join_ok
      "[''ref.wav'']" "[''out.wav'']" "''en''" "GENERATION_PRESETS Neutral" empty_world]
    by simp
  ultimately show ?thesis by simp
qed

section \<open>A join that fails\<close>




section \<open>The exit status\<close>





end
